theory Spec2Isabelle
  imports Complex_Main "HOL-Library.Word" "HOL-Library.Log_Nat"
begin

unbundle bit_operations_syntax

section \<open>Machine types and undefined behaviour\<close>

text \<open>
  \<^verbatim>\<open>RandomX1.h\<close> is an Arduino header. Its integer types are modelled at the widths of
  a 32-bit Arduino target: \<^verbatim>\<open>long\<close> and \<^verbatim>\<open>uint32_t\<close> are 32-bit words, \<^verbatim>\<open>uint8_t\<close> is
  an 8-bit word and \<^verbatim>\<open>int\<close> (the type of the literal \<^verbatim>\<open>1\<close>) has 32 bits. A \<^verbatim>\<open>long\<close> is
  read as a two's complement number with \<open>sint\<close>; comparisons between two \<^verbatim>\<open>long\<close>
  values are the signed ones (\<open>\<le>s\<close>, \<open><s\<close>).

  What C++ leaves undefined is a value of the model, not a silent wrap-around: a signed
  \<^verbatim>\<open>long\<close> addition or subtraction whose mathematical result does not fit, an array
  read outside the array, and a shift of a 32-bit value by 32 or more end the call with
  \<open>Inl\<close>.
\<close>

type_synonym long = "32 word"
type_synonym uint32_t = "32 word"
type_synonym uint8_t = "8 word"

datatype ub = SignedOverflow | OutOfBounds | ShiftRange

definition LONG_MAX :: long where
  "LONG_MAX = 0x7FFFFFFF"

definition long_ok :: "int \<Rightarrow> bool" where
  "long_ok i \<longleftrightarrow> - (2 ^ 31) \<le> i \<and> i \<le> 2 ^ 31 - 1"

definition add_long :: "long \<Rightarrow> long \<Rightarrow> ub + long" where
  "add_long a b = (if long_ok (sint a + sint b) then Inr (a + b) else Inl SignedOverflow)"

definition sub_long :: "long \<Rightarrow> long \<Rightarrow> ub + long" where
  "sub_long a b = (if long_ok (sint a - sint b) then Inr (a - b) else Inl SignedOverflow)"

definition array_at :: "'a list \<Rightarrow> int \<Rightarrow> ub + 'a" where
  "array_at xs i = (if 0 \<le> i \<and> i < int (length xs) then Inr (xs ! nat i) else Inl OutOfBounds)"

definition bind_ub :: "ub + 'a \<Rightarrow> ('a \<Rightarrow> ub + 'b) \<Rightarrow> ub + 'b" where
  "bind_ub m f = (case m of Inl e \<Rightarrow> Inl e | Inr x \<Rightarrow> f x)"

section \<open>The native random source\<close>

text \<open>
  Modelled from the spec: the platform's \<^verbatim>\<open>::random(howbig)\<close> and \<^verbatim>\<open>::randomSeed(seed)\<close>,
  which belong to the Arduino core and are not part of this repository. The spec takes
  them as an external collaborator: a draw returns an integer in \<open>[0, howbig)\<close>, and
  reseeding reinitialises the source. The source is a field of the generator state, so
  that a statement about every state is a statement about every source: \<open>raw sd k\<close> is
  the \<open>k\<close>-th raw number the underlying generator produces after it was seeded with
  \<open>sd\<close>, with no assumption on it. \<open>calls\<close> counts the draws and is never reset.
\<close>

record native_source =
  raw :: "32 word \<Rightarrow> nat \<Rightarrow> nat"
  seed :: "32 word"
  pos :: nat
  calls :: nat

definition native_random :: "long \<Rightarrow> native_source \<Rightarrow> long \<times> native_source" where
  "native_random howbig src =
     ((if 0 <s howbig then word_of_nat (raw src (seed src) (pos src) mod unat howbig) else 0),
      src\<lparr>pos := Suc (pos src), calls := Suc (calls src)\<rparr>)"

definition native_randomSeed :: "32 word \<Rightarrow> native_source \<Rightarrow> native_source" where
  "native_randomSeed sd src = src\<lparr>seed := sd, pos := 0\<rparr>"

section \<open>The class \<^verbatim>\<open>RandomX1\<close>\<close>

record RandomX1 =
  m_bits :: "uint32_t list"
  m_bitCounts :: "uint8_t list"
  m_ctrlIndex :: uint8_t
  native :: native_source

definition MAX_BITS_PER_RANDOM_REQUEST :: uint8_t where
  "MAX_BITS_PER_RANDOM_REQUEST = 20"

text \<open>
  \<^verbatim>\<open>static const uint8_t MAX_VALUE_PER_RANDOM_REQUEST = ((1 << MAX_BITS_PER_RANDOM_REQUEST) - 1);\<close>
  The initialiser is computed in \<^verbatim>\<open>int\<close> and then converted to the declared type
  \<^verbatim>\<open>uint8_t\<close>, which keeps its low 8 bits. (With the 16-bit \<^verbatim>\<open>int\<close> of an 8-bit AVR
  the shift by 20 is already out of range; the conversion to \<^verbatim>\<open>uint8_t\<close> is the same.)
\<close>

definition MAX_VALUE_PER_RANDOM_REQUEST :: uint8_t where
  "MAX_VALUE_PER_RANDOM_REQUEST =
     ucast (push_bit (unat MAX_BITS_PER_RANDOM_REQUEST) (1 :: 32 word) - 1)"

definition BITS_PER_NATIVE_RANDOM :: uint8_t where
  "BITS_PER_NATIVE_RANDOM = 31"

text \<open>The constructor: both buffers are filled from the native source, then it is seeded.\<close>

definition RandomX1_new :: "32 word \<Rightarrow> native_source \<Rightarrow> RandomX1" where
  "RandomX1_new sd src =
     (let (b0, src1) = native_random LONG_MAX src;
          (b1, src2) = native_random LONG_MAX src1
      in \<lparr>m_bits = [b0, b1],
          m_bitCounts = [BITS_PER_NATIVE_RANDOM, BITS_PER_NATIVE_RANDOM],
          m_ctrlIndex = 0,
          native = native_randomSeed sd src2\<rparr>)"

definition randomSeed :: "32 word \<Rightarrow> RandomX1 \<Rightarrow> RandomX1" where
  "randomSeed sd s = s\<lparr>native := native_randomSeed sd (native s)\<rparr>"

subsection \<open>\<^verbatim>\<open>_get_required_bits\<close>\<close>

definition REQUIRED_BITS :: "uint8_t list" where
  "REQUIRED_BITS = [
     0x00, 0x01, 0x02, 0x02, 0x03, 0x03, 0x03, 0x03,
     0x04, 0x04, 0x04, 0x04, 0x04, 0x04, 0x04, 0x04,
     0x05, 0x05, 0x05, 0x05, 0x05, 0x05, 0x05, 0x05,
     0x05, 0x05, 0x05, 0x05, 0x05, 0x05, 0x05, 0x05,
     0x06, 0x06, 0x06, 0x06, 0x06, 0x06, 0x06, 0x06,
     0x06, 0x06, 0x06, 0x06, 0x06, 0x06, 0x06, 0x06,
     0x06, 0x06, 0x06, 0x06, 0x06, 0x06, 0x06, 0x06,
     0x06, 0x06, 0x06, 0x06, 0x06, 0x06, 0x06, 0x06,
     0x07, 0x07, 0x07, 0x07, 0x07, 0x07, 0x07, 0x07,
     0x07, 0x07, 0x07, 0x07, 0x07, 0x07, 0x07, 0x07,
     0x07, 0x07, 0x07, 0x07, 0x07, 0x07, 0x07, 0x07,
     0x07, 0x07, 0x07, 0x07, 0x07, 0x07, 0x07, 0x07,
     0x07, 0x07, 0x07, 0x07, 0x07, 0x07, 0x07, 0x07,
     0x07, 0x07, 0x07, 0x07, 0x07, 0x07, 0x07, 0x07,
     0x07, 0x07, 0x07, 0x07, 0x07, 0x07, 0x07, 0x07,
     0x07, 0x07, 0x07, 0x07, 0x07, 0x07, 0x07, 0x07,
     0x08, 0x08, 0x08, 0x08, 0x08, 0x08, 0x08, 0x08,
     0x08, 0x08, 0x08, 0x08, 0x08, 0x08, 0x08, 0x08,
     0x08, 0x08, 0x08, 0x08, 0x08, 0x08, 0x08, 0x08,
     0x08, 0x08, 0x08, 0x08, 0x08, 0x08, 0x08, 0x08,
     0x08, 0x08, 0x08, 0x08, 0x08, 0x08, 0x08, 0x08,
     0x08, 0x08, 0x08, 0x08, 0x08, 0x08, 0x08, 0x08,
     0x08, 0x08, 0x08, 0x08, 0x08, 0x08, 0x08, 0x08,
     0x08, 0x08, 0x08, 0x08, 0x08, 0x08, 0x08, 0x08,
     0x08, 0x08, 0x08, 0x08, 0x08, 0x08, 0x08, 0x08,
     0x08, 0x08, 0x08, 0x08, 0x08, 0x08, 0x08, 0x08,
     0x08, 0x08, 0x08, 0x08, 0x08, 0x08, 0x08, 0x08,
     0x08, 0x08, 0x08, 0x08, 0x08, 0x08, 0x08, 0x08,
     0x08, 0x08, 0x08, 0x08, 0x08, 0x08, 0x08, 0x08,
     0x08, 0x08, 0x08, 0x08, 0x08, 0x08, 0x08, 0x08,
     0x08, 0x08, 0x08, 0x08, 0x08, 0x08, 0x08, 0x08,
     0x08, 0x08, 0x08, 0x08, 0x08, 0x08, 0x08, 0x08]"

text \<open>
  \<^verbatim>\<open>num\<close> is a \<^verbatim>\<open>long\<close>, so \<^verbatim>\<open>num >> 8\<close> is the arithmetic shift; \<^verbatim>\<open>temp\<close> is a
  \<^verbatim>\<open>uint32_t\<close>, so \<^verbatim>\<open>temp >> 8\<close> is the logical one. The function reads no member of
  the object: it has no state argument.
\<close>

definition get_required_bits :: "long \<Rightarrow> ub + uint8_t" where
  "get_required_bits num =
     (let temp = (signed_drop_bit 8 num :: uint32_t) in
      if temp = 0 then array_at REQUIRED_BITS (sint num)
      else let num1 = (drop_bit 8 temp :: long) in
        if num1 = 0 then bind_ub (array_at REQUIRED_BITS (uint temp)) (\<lambda>r. Inr (8 + r))
        else let temp1 = (signed_drop_bit 8 num1 :: uint32_t) in
          if temp1 = 0 then bind_ub (array_at REQUIRED_BITS (sint num1)) (\<lambda>r. Inr (16 + r))
          else bind_ub (array_at REQUIRED_BITS (uint temp1)) (\<lambda>r. Inr (24 + r)))"

subsection \<open>\<^verbatim>\<open>_get_mask\<close>\<close>

definition MASKS :: "long list" where
  "MASKS = [
     0x00000000, 0x00000001, 0x00000003, 0x00000007,
     0x0000000f, 0x0000001f, 0x0000003f, 0x0000007f,
     0x000000ff, 0x000001ff, 0x000003ff, 0x000007ff,
     0x00000fff, 0x00001fff, 0x00003fff, 0x00007fff,
     0x0000ffff, 0x0001ffff, 0x0003ffff, 0x0007ffff,
     0x000fffff, 0x001fffff, 0x003fffff, 0x007fffff,
     0x00ffffff, 0x01ffffff, 0x03ffffff, 0x07ffffff,
     0x0fffffff, 0x1fffffff, 0x3fffffff, 0x7fffffff]"

definition get_mask :: "uint8_t \<Rightarrow> ub + long" where
  "get_mask bit_count = array_at MASKS (uint bit_count)"

subsection \<open>\<^verbatim>\<open>_get_bits\<close>\<close>

text \<open>
  The member arrays have two elements; \<^verbatim>\<open>m_ctrlIndex\<close> selects one. The first
  component of the bound triple is \<^verbatim>\<open>ret\<close>, the second the updated \<^verbatim>\<open>bit_count\<close>
  after the refill block. The final right shift has the count that \<open>get_mask\<close> has
  just accepted as an index below 32.
\<close>

definition get_bits :: "uint8_t \<Rightarrow> RandomX1 \<Rightarrow> ub + (long \<times> RandomX1)" where
  "get_bits bit_count s =
     (let i = unat (m_ctrlIndex s) in
      if \<not> (i < length (m_bits s) \<and> i < length (m_bitCounts s)) then Inl OutOfBounds
      else
        bind_ub
          (if bit_count > m_bitCounts s ! i then
             let bit_count1 = bit_count - m_bitCounts s ! i in
             if \<not> unat bit_count1 < 32 then Inl ShiftRange
             else
               let ret = push_bit (unat bit_count1) (m_bits s ! i);
                   (r, src) = native_random LONG_MAX (native s)
               in Inr (ret, bit_count1,
                       s\<lparr>m_bits := (m_bits s)[i := r],
                         m_bitCounts := (m_bitCounts s)[i := BITS_PER_NATIVE_RANDOM],
                         native := src\<rparr>)
           else Inr (0, bit_count, s))
          (\<lambda>(ret, bit_count1, s1).
             bind_ub (get_mask bit_count1) (\<lambda>mask.
               let ret1 = ret OR (m_bits s1 ! i AND mask) in
               Inr (ret1,
                    s1\<lparr>m_bitCounts := (m_bitCounts s1)[i := m_bitCounts s1 ! i - bit_count1],
                       m_bits := (m_bits s1)[i := drop_bit (unat bit_count1) (m_bits s1 ! i)]\<rparr>))))"

subsection \<open>\<^verbatim>\<open>_peek_bits\<close>\<close>

text \<open>
  \<^verbatim>\<open>res\<close> is passed by reference: the model takes it and returns it, changed only
  when the peek succeeds. \<^verbatim>\<open>m_bits[..] & mask\<close> is unsigned, so its comparison with
  \<^verbatim>\<open>num\<close> is the unsigned one.
\<close>

definition peek_bits :: "uint8_t \<Rightarrow> long \<Rightarrow> long \<Rightarrow> RandomX1 \<Rightarrow> ub + (bool \<times> long \<times> RandomX1)" where
  "peek_bits bit_count num res s =
     (let i = unat (m_ctrlIndex s) in
      if \<not> (i < length (m_bits s) \<and> i < length (m_bitCounts s)) then Inl OutOfBounds
      else if m_bitCounts s ! i \<ge> bit_count then
        bind_ub (get_mask bit_count) (\<lambda>mask.
          if (m_bits s ! i AND mask) < num then
            bind_ub (get_bits bit_count s) (\<lambda>(r, s1). Inr (True, r, s1))
          else Inr (False, res, s))
      else Inr (False, res, s))"

subsection \<open>\<^verbatim>\<open>randomBits\<close>\<close>

definition randomBits :: "uint8_t \<Rightarrow> long \<Rightarrow> RandomX1 \<Rightarrow> ub + (long \<times> RandomX1)" where
  "randomBits bit_count offset s =
     (if bit_count = 0 then Inr (0, s)
      else
        let bit_count1 = (if bit_count > MAX_BITS_PER_RANDOM_REQUEST
                          then MAX_BITS_PER_RANDOM_REQUEST else bit_count);
            s1 = s\<lparr>m_ctrlIndex := m_ctrlIndex s XOR 0x01\<rparr>
        in bind_ub (get_bits bit_count1 s1) (\<lambda>(r, s2).
             bind_ub (add_long r offset) (\<lambda>v. Inr (v, s2))))"

subsection \<open>\<^verbatim>\<open>random\<close>\<close>

text \<open>
  \<open>sample\<close> is the body of \<^verbatim>\<open>random(min_val, max_val)\<close> between the computation of
  \<^verbatim>\<open>req_bits\<close> and the final \<^verbatim>\<open>return\<close>: the two draws, the two peeks and the native
  fallback, with the nesting of the source.
\<close>

definition sample :: "uint8_t \<Rightarrow> long \<Rightarrow> RandomX1 \<Rightarrow> ub + (long \<times> RandomX1)" where
  "sample req_bits diff s =
     bind_ub (randomBits req_bits 0 s) (\<lambda>(res, s1).
       if diff \<le>s res then
         bind_ub (randomBits req_bits 0 s1) (\<lambda>(res1, s2).
           if diff \<le>s res1 then
             bind_ub (peek_bits req_bits diff res1 s2) (\<lambda>(ok, res2, s3).
               if \<not> ok then
                 if diff \<le>s res2 then
                   let s4 = s3\<lparr>m_ctrlIndex := m_ctrlIndex s3 XOR 0x01\<rparr> in
                   bind_ub (peek_bits req_bits diff res2 s4) (\<lambda>(ok1, res3, s5).
                     if \<not> ok1 then
                       let (r, src) = native_random diff (native s5)
                       in Inr (r, s5\<lparr>native := src\<rparr>)
                     else Inr (res3, s5))
                 else Inr (res2, s3)
               else Inr (res2, s3))
           else Inr (res1, s2))
       else Inr (res, s1))"

definition random :: "long \<Rightarrow> long \<Rightarrow> RandomX1 \<Rightarrow> ub + (long \<times> RandomX1)" where
  "random min_val max_val s =
     bind_ub (sub_long max_val min_val) (\<lambda>d.
     bind_ub (sub_long d 1) (\<lambda>diff.
       if diff \<le>s 0 then Inr (0, s)
       else
         let diff1 = (if ucast MAX_VALUE_PER_RANDOM_REQUEST <s diff
                      then ucast MAX_VALUE_PER_RANDOM_REQUEST else diff)
         in bind_ub (get_required_bits diff1) (\<lambda>req_bits.
            bind_ub (sample req_bits diff1 s) (\<lambda>(res, s1).
            bind_ub (add_long res min_val) (\<lambda>v. Inr (v, s1))))))"

definition random_max :: "long \<Rightarrow> RandomX1 \<Rightarrow> ub + (long \<times> RandomX1)" where
  "random_max max_val s = random 0 max_val s"

section \<open>Well-formed and reachable generator states\<close>

text \<open>
  \<open>buffers_ok\<close> is the invariant of the cache: both member arrays have their two
  elements, \<^verbatim>\<open>m_ctrlIndex\<close> is 0 or 1, every remaining count is at most the native width
  31, and a buffer has no bit set at or above its remaining count.
\<close>

definition buffers_ok :: "RandomX1 \<Rightarrow> bool" where
  "buffers_ok s \<longleftrightarrow>
     length (m_bits s) = 2 \<and> length (m_bitCounts s) = 2 \<and> unat (m_ctrlIndex s) < 2 \<and>
     list_all2 (\<lambda>b c. unat c \<le> 31 \<and> take_bit (unat c) b = b) (m_bits s) (m_bitCounts s)"

text \<open>
  The states a program can observe: the constructor's, and those left by a public
  operation that returned (\<^verbatim>\<open>randomSeed\<close>, \<^verbatim>\<open>randomBits\<close>, both forms of \<^verbatim>\<open>random\<close>).
\<close>

inductive reachable :: "RandomX1 \<Rightarrow> bool" where
  constructed: "reachable (RandomX1_new sd src)"
| reseeded: "reachable s \<Longrightarrow> reachable (randomSeed sd s)"
| drew_bits: "reachable s \<Longrightarrow> randomBits bit_count offset s = Inr (v, s') \<Longrightarrow> reachable s'"
| drew_range: "reachable s \<Longrightarrow> random min_val max_val s = Inr (v, s') \<Longrightarrow> reachable s'"
| drew_max: "reachable s \<Longrightarrow> random_max max_val s = Inr (v, s') \<Longrightarrow> reachable s'"

code_pred reachable .

text \<open>
  The bits of the active buffer below its remaining count.
\<close>

definition valid_bits :: "RandomX1 \<Rightarrow> uint32_t" where
  "valid_bits t = take_bit (unat (m_bitCounts t ! unat (m_ctrlIndex t))) (m_bits t ! unat (m_ctrlIndex t))"

text \<open>
  The extractor in the spec's words, for comparison with \<open>get_bits\<close>: with enough
  bits remaining the result is the low \<open>count\<close> valid bits; otherwise the valid bits
  are the high-order part, shifted left by the shortfall, and the low-order part is the
  low \<open>shortfall\<close> bits of a fresh native word.
\<close>

definition spec_extract :: "uint8_t \<Rightarrow> RandomX1 \<Rightarrow> long" where
  "spec_extract bit_count t =
     (let remaining = m_bitCounts t ! unat (m_ctrlIndex t) in
      if remaining \<ge> bit_count then take_bit (unat bit_count) (valid_bits t)
      else
        let shortfall = unat bit_count - unat remaining
        in push_bit shortfall (valid_bits t)
             OR take_bit shortfall (fst (native_random LONG_MAX (native t))))"

section \<open>An example generator\<close>

text \<open>
  A native source whose raw outputs are 74565, 74566, \<dots> (\<open>0x12345\<close>, \<open>0x12346\<close>,
  \<dots>) after every seeding, and the generator constructed on it with seed 0.
\<close>

definition src0 :: native_source where
  "src0 = \<lparr>raw = (\<lambda>sd k. 74565 + k), seed = 0, pos = 0, calls = 0\<rparr>"

definition gen0 :: RandomX1 where
  "gen0 = RandomX1_new 0 src0"

section \<open>The required-bit-width calculator\<close>

lemma RB_eq: "map unat REQUIRED_BITS = map (floorlog 2) [0..<256]"
  unfolding REQUIRED_BITS_def by code_simp

lemma RB_len: "length REQUIRED_BITS = 256"
  using arg_cong [OF RB_eq, of length] by simp

lemma RB_nth: assumes "k < 256" shows "REQUIRED_BITS ! k = word_of_nat (floorlog 2 k)"
proof -
  have "map unat REQUIRED_BITS ! k = map (floorlog 2) [0..<256] ! k"
    by (simp only: RB_eq)
  with assms have "unat (REQUIRED_BITS ! k) = floorlog 2 k"
    by (simp add: RB_len)
  then show ?thesis
    by (metis of_nat_unat ucast_id)
qed

lemma floorlog_shift: "2 ^ k \<le> n \<Longrightarrow> floorlog 2 n = k + floorlog 2 (n div 2 ^ k)"
proof (induction k arbitrary: n)
  case 0 then show ?case by simp
next
  case (Suc k)
  then have "0 < n" "2 ^ k \<le> n div 2"
    by (auto simp: Suc_le_eq less_le_trans [OF zero_less_power [of 2 "Suc k"]])
  then show ?case
    using Suc.IH [of "n div 2"] by (subst compute_floorlog) (simp add: div_mult2_eq)
qed

lemma floorlog_ceil: "floorlog 2 n = nat \<lceil>log 2 (real n + 1)\<rceil>"
proof (cases "n = 0")
  case True then show ?thesis by (simp add: floorlog_def)
next
  case False
  then have b: "2 ^ (floorlog 2 n - 1) \<le> n" "n < 2 ^ floorlog 2 n"
    using floorlog_bounds [of n 2] by auto
  have pos: "0 < floorlog 2 n" using False by (simp add: floorlog_def)
  have "ceillog2 (Suc n) = floorlog 2 n"
  proof (rule ceillog2_eqI)
    show "Suc n \<le> 2 ^ floorlog 2 n" using b by simp
    have "2 ^ floorlog 2 n = 2 * (2::nat) ^ (floorlog 2 n - 1)"
      using pos by (cases "floorlog 2 n") auto
    then show "2 ^ floorlog 2 n < 2 * Suc n" using b by simp
  qed
  then show ?thesis by (simp add: ceillog2_def add.commute)
qed

lemma uint_small: assumes "unat (w :: 32 word) < 2 ^ 31" shows "uint w < 2 ^ 31"
proof -
  have "int (unat w) < int (2 ^ 31)" using assms by (rule iffD2 [OF of_nat_less_iff])
  then show ?thesis by simp
qed

lemma sint_small: assumes "unat (w :: 32 word) < 2 ^ 31" shows "sint w = int (unat w)"
proof -
  have "signed_take_bit 31 (uint w) = uint w"
    using uint_small [OF assms] by (intro signed_take_bit_int_eq_self) (auto intro: order_trans [of _ 0])
  then show ?thesis by (simp add: sint_uint)
qed

lemma sdrop_small: assumes "unat (w :: 32 word) < 2 ^ 31"
  shows "signed_drop_bit 8 w = drop_bit 8 w"
proof -
  have "sint (signed_drop_bit 8 w) = drop_bit 8 (uint w)"
    by (simp add: sint_signed_drop_bit_eq sint_small [OF assms])
  also have "\<dots> = uint (drop_bit 8 w)"
    by (simp only: uint_nat unat_drop_bit_eq of_nat_drop_bit)
  finally have "word_of_int (sint (signed_drop_bit 8 w)) = (word_of_int (uint (drop_bit 8 w)) :: 32 word)"
    by simp
  then show ?thesis
    by simp
qed

lemma unat_drop8: "unat (drop_bit 8 (w :: 32 word)) = unat w div 256"
  by (simp only: unat_drop_bit_eq) (simp add: drop_bit_eq_div)

lemma at_RB:
  assumes "unat (x :: 32 word) < 256"
  shows "array_at REQUIRED_BITS (uint x) = Inr (word_of_nat (floorlog 2 (unat x)))"
proof -
  have "int (unat x) < int 256" using assms by (simp only: of_nat_less_iff)
  then have "uint x < 256" by simp
  moreover have "nat (uint x) = unat x" by simp
  ultimately show ?thesis using assms by (simp add: array_at_def RB_len RB_nth)
qed

lemma grb: assumes "unat (w :: 32 word) < 2 ^ 31"
  shows "get_required_bits w = Inr (word_of_nat (floorlog 2 (unat w)))"
proof -
  define n where "n = unat w"
  define t where "t = drop_bit 8 w"
  define m where "m = drop_bit 8 t"
  define u where "u = drop_bit 8 m"
  have nt: "unat t = n div 256" and nm: "unat m = unat t div 256" and nu: "unat u = unat m div 256"
    by (simp_all only: n_def t_def m_def u_def unat_drop8)
  have n: "n < 2 ^ 31" using assms by (simp add: n_def)
  then have t: "unat t < 2 ^ 23" and m: "unat m < 2 ^ 15" and u: "unat u < 2 ^ 7"
    by (simp_all add: nt nm nu) 
  have z: "\<And>x :: 32 word. x = 0 \<longleftrightarrow> unat x = 0" by (simp add: unat_eq_0)
  have sw: "signed_drop_bit 8 w = t" unfolding t_def by (rule sdrop_small [OF assms])
  have sm: "signed_drop_bit 8 m = u" unfolding u_def using m by (intro sdrop_small) simp
  have siw: "sint w = uint w" by (simp only: uint_nat sint_small [OF assms])
  have sim: "sint m = uint m" using m by (simp only: uint_nat) (intro sint_small, simp)
  have unfold: "get_required_bits w =
     (if t = 0 then array_at REQUIRED_BITS (uint w)
      else if m = 0 then bind_ub (array_at REQUIRED_BITS (uint t)) (\<lambda>r. Inr (8 + r))
      else if u = 0 then bind_ub (array_at REQUIRED_BITS (uint m)) (\<lambda>r. Inr (16 + r))
      else bind_ub (array_at REQUIRED_BITS (uint u)) (\<lambda>r. Inr (24 + r)))"
    by (simp only: get_required_bits_def Let_def sw m_def [symmetric] sm siw sim)
  show ?thesis
  proof (cases "t = 0")
    case True
    then have "unat w < 256" using nt by (simp add: z n_def)
    then show ?thesis using True by (simp add: unfold at_RB)
  next
    case t0: False
    then have n8: "2 ^ 8 \<le> n" using nt by (simp add: z)
    show ?thesis
    proof (cases "m = 0")
      case True
      then have lt: "unat t < 256" using nm by (simp add: z)
      have "floorlog 2 (unat w) = 8 + floorlog 2 (unat t)"
        using floorlog_shift [OF n8] by (simp add: nt n_def)
      then show ?thesis using True t0
        by (simp add: unfold at_RB [OF lt] bind_ub_def)
    next
      case m0: False
      then have n16: "2 ^ 16 \<le> n" using nm nt by (simp add: z)
      have "n div 2 ^ 16 = n div 256 div 256"
        by (simp only: div_mult2_eq [symmetric]) simp
      then have d16: "n div 2 ^ 16 = unat m" by (simp only: nm nt)
      have fl: "floorlog 2 (unat w) = 16 + floorlog 2 (unat m)"
        using floorlog_shift [OF n16] by (simp only: d16) (simp only: n_def)
      show ?thesis
      proof (cases "u = 0")
        case True
        then have lt: "unat m < 256" using nu by (simp add: z)
        show ?thesis using True t0 m0 fl
          by (simp add: unfold at_RB [OF lt] bind_ub_def)
      next
        case u0: False
        then have n24: "2 ^ 24 \<le> n" using nm nt nu by (simp add: z)
        have "n div 2 ^ 24 = n div 256 div 256 div 256"
          by (simp only: div_mult2_eq [symmetric]) simp
        then have d24: "n div 2 ^ 24 = unat u" by (simp only: nm nt nu)
        have fl: "floorlog 2 (unat w) = 24 + floorlog 2 (unat u)"
          using floorlog_shift [OF n24] by (simp only: d24) (simp only: n_def)
        have lt: "unat u < 256" using u by simp
        show ?thesis using u0 t0 m0 fl
          by (simp add: unfold at_RB [OF lt] bind_ub_def)
      qed
    qed
  qed
qed


lemma floorlog_le_21: assumes "n \<le> 2 ^ 20" shows "floorlog 2 n \<le> 21"
proof -
  have "n < 2 ^ 21" using assms by simp
  then show ?thesis by (intro floorlog_leI) simp_all
qed

lemma unat_word_of_nat_32: "n < 2 ^ 31 \<Longrightarrow> unat (word_of_nat n :: 32 word) = n"
  by (simp add: unat_of_nat)

text \<open>
  C5. The width calculator has no state argument (it is a function of \<open>num\<close> alone), and
  for every \<open>n\<close> in \<open>[0, 2^20]\<close> it returns \<open>ceil(log2(n+1))\<close>, read from the 256-entry
  table after 8-bit right shifts; in particular 0 gives 0, 1 gives 1, 255 gives 8, 256
  gives 9 and 1048575 gives 20.
\<close>

theorem get_required_bits_ceil_log2:
  "(\<forall>n \<le> 2 ^ 20. \<exists>r. get_required_bits (word_of_nat n) = Inr r
        \<and> unat r = nat \<lceil>log 2 (real n + 1)\<rceil>)
   \<and> length REQUIRED_BITS = 256
   \<and> get_required_bits 0 = Inr 0 \<and> get_required_bits 1 = Inr 1
   \<and> get_required_bits 255 = Inr 8 \<and> get_required_bits 256 = Inr 9
   \<and> get_required_bits 1048575 = Inr 20"
proof -
  have "\<exists>r. get_required_bits (word_of_nat n) = Inr r \<and> unat r = nat \<lceil>log 2 (real n + 1)\<rceil>"
    if n: "n \<le> 2 ^ 20" for n
  proof -
    have u: "unat (word_of_nat n :: 32 word) = n"
      using n by (intro unat_word_of_nat_32) simp
    have "unat (word_of_nat (floorlog 2 n) :: 8 word) = floorlog 2 n"
      using floorlog_le_21 [OF n] by (simp add: unat_of_nat)
    moreover have "get_required_bits (word_of_nat n) = Inr (word_of_nat (floorlog 2 n))"
      using grb [of "word_of_nat n"] n by (simp add: u)
    ultimately show ?thesis
      by (simp add: floorlog_ceil)
  qed
  moreover have "get_required_bits 0 = Inr 0" "get_required_bits 1 = Inr 1"
    "get_required_bits 255 = Inr 8" "get_required_bits 256 = Inr 9"
    "get_required_bits 1048575 = Inr 20"
    by (simp_all add: get_required_bits_def REQUIRED_BITS_def array_at_def bind_ub_def)
  ultimately show ?thesis
    by (simp add: RB_len)
qed

theorem get_required_bits_ceil_log2_witness:
  "(200 :: nat) \<le> 2 ^ 20 \<and> (\<exists>r. get_required_bits (word_of_nat 200) = Inr r
      \<and> unat r = nat \<lceil>log 2 (real 200 + 1)\<rceil>)"
proof -
  have le: "(200 :: nat) \<le> 2 ^ 20" by simp
  have "\<forall>n \<le> 2 ^ 20. \<exists>r. get_required_bits (word_of_nat n) = Inr r
        \<and> unat r = nat \<lceil>log 2 (real n + 1)\<rceil>"
    using get_required_bits_ceil_log2 by (rule conjunct1)
  with le show ?thesis by blast
qed

section \<open>The bit extractor\<close>

lemma MASKS_eq: "MASKS = map mask [0..<32]"
  unfolding MASKS_def by (simp add: upt_rec mask_eq_exp_minus_1)

lemma get_mask_eq: assumes "unat bc < 32" shows "get_mask bc = Inr (mask (unat bc))"
proof -
  have "int (unat bc) < int 32" using assms by (simp only: of_nat_less_iff)
  then have "uint bc < 32" by simp
  moreover have "nat (uint bc) = unat bc" by simp
  ultimately show ?thesis using assms by (simp add: get_mask_def array_at_def MASKS_eq)
qed

lemma get_bits_cached:
  assumes "unat (m_ctrlIndex s) < length (m_bits s)" "unat (m_ctrlIndex s) < length (m_bitCounts s)"
    and "bc \<le> m_bitCounts s ! unat (m_ctrlIndex s)" "unat bc < 32"
  shows "get_bits bc s =
     Inr (take_bit (unat bc) (m_bits s ! unat (m_ctrlIndex s)),
          s\<lparr>m_bitCounts := (m_bitCounts s)[unat (m_ctrlIndex s) := m_bitCounts s ! unat (m_ctrlIndex s) - bc],
            m_bits := (m_bits s)[unat (m_ctrlIndex s) := drop_bit (unat bc) (m_bits s ! unat (m_ctrlIndex s))]\<rparr>)"
  using assms by (simp add: get_bits_def Let_def bind_ub_def get_mask_eq take_bit_eq_mask not_less [symmetric])

lemma get_bits_refill:
  assumes "unat (m_ctrlIndex s) < length (m_bits s)" "unat (m_ctrlIndex s) < length (m_bitCounts s)"
    and "m_bitCounts s ! unat (m_ctrlIndex s) < bc" "unat bc < 32"
  shows "get_bits bc s =
     (let i = unat (m_ctrlIndex s); k = unat bc - unat (m_bitCounts s ! i);
          (r, src) = native_random LONG_MAX (native s)
      in Inr (push_bit k (m_bits s ! i) OR take_bit k r,
          s\<lparr>m_bits := (m_bits s)[i := drop_bit k r],
            m_bitCounts := (m_bitCounts s)[i := BITS_PER_NATIVE_RANDOM - (bc - m_bitCounts s ! i)],
            native := src\<rparr>))"
proof -
  have k: "unat (bc - m_bitCounts s ! unat (m_ctrlIndex s)) = unat bc - unat (m_bitCounts s ! unat (m_ctrlIndex s))"
    using assms(3) by (simp add: unat_sub)
  then have "unat (bc - m_bitCounts s ! unat (m_ctrlIndex s)) < 32" using assms(4) by simp
  then show ?thesis using assms
    by (simp add: get_bits_def Let_def bind_ub_def get_mask_eq take_bit_eq_mask split_def k)
qed


lemma native_random_LONG_MAX:
  "take_bit 31 (fst (native_random LONG_MAX src)) = fst (native_random LONG_MAX src)"
proof -
  have "raw src (seed src) (pos src) mod 2147483647 < 2147483647" by simp
  then have "raw src (seed src) (pos src) mod 2147483647 < 2 ^ 31" by (rule less_trans) simp
  then have "take_bit 31 (raw src (seed src) (pos src) mod 2147483647)
      = raw src (seed src) (pos src) mod 2147483647"
    by (rule take_bit_nat_eq_self)
  then have "take_bit 31 (word_of_nat (raw src (seed src) (pos src) mod 2147483647) :: 32 word)
      = word_of_nat (raw src (seed src) (pos src) mod 2147483647)"
    by (simp only: of_nat_take_bit [symmetric])
  then show ?thesis
    by (simp add: native_random_def LONG_MAX_def word_sless_alt)
qed

lemma native_random_calls:
  "calls (snd (native_random howbig src)) = Suc (calls src)"
  by (simp add: native_random_def)

lemma buffers_okD:
  assumes "buffers_ok s"
  shows "unat (m_ctrlIndex s) < length (m_bits s)" "unat (m_ctrlIndex s) < length (m_bitCounts s)"
    "unat (m_bitCounts s ! unat (m_ctrlIndex s)) \<le> 31"
    "take_bit (unat (m_bitCounts s ! unat (m_ctrlIndex s))) (m_bits s ! unat (m_ctrlIndex s))
       = m_bits s ! unat (m_ctrlIndex s)"
proof -
  from assms have l: "length (m_bits s) = 2" "length (m_bitCounts s) = 2" "unat (m_ctrlIndex s) < 2"
    and la: "list_all2 (\<lambda>b c. unat c \<le> 31 \<and> take_bit (unat c) b = b) (m_bits s) (m_bitCounts s)"
    by (simp_all add: buffers_ok_def)
  from l show "unat (m_ctrlIndex s) < length (m_bits s)" "unat (m_ctrlIndex s) < length (m_bitCounts s)"
    by simp_all
  from list_all2_nthD [OF la, of "unat (m_ctrlIndex s)"] l
  show "unat (m_bitCounts s ! unat (m_ctrlIndex s)) \<le> 31"
    "take_bit (unat (m_bitCounts s ! unat (m_ctrlIndex s))) (m_bits s ! unat (m_ctrlIndex s))
       = m_bits s ! unat (m_ctrlIndex s)"
    by simp_all
qed

lemma buffers_ok_fields:
  assumes "buffers_ok s" "unat c \<le> 31" "take_bit (unat c) b = b"
    and "m_bits s' = (m_bits s)[unat (m_ctrlIndex s) := b]"
    and "m_bitCounts s' = (m_bitCounts s)[unat (m_ctrlIndex s) := c]"
    and "m_ctrlIndex s' = m_ctrlIndex s"
  shows "buffers_ok s'"
  using assms by (simp add: buffers_ok_def list_all2_update_cong)

lemma get_bits_ok:
  assumes ok: "buffers_ok s" and bc: "unat bc \<le> 31"
  shows "\<exists>v s'. get_bits bc s = Inr (v, s') \<and> buffers_ok s' \<and> m_ctrlIndex s' = m_ctrlIndex s
           \<and> take_bit (unat bc) v = v
           \<and> calls (native s) \<le> calls (native s') \<and> calls (native s') \<le> Suc (calls (native s))"
proof -
  define i where "i = unat (m_ctrlIndex s)"
  define c where "c = m_bitCounts s ! i"
  define b where "b = m_bits s ! i"
  note d = buffers_okD [OF ok, folded i_def, folded c_def b_def]
  have bc32: "unat bc < 32" using bc by simp
  show ?thesis
  proof (cases "bc \<le> c")
    case True
    then have le: "unat bc \<le> unat c" by (simp add: word_le_nat_alt)
    have u: "unat (c - bc) = unat c - unat bc" using True by (simp add: unat_sub)
    have "take_bit (unat c - unat bc) (drop_bit (unat bc) b) = drop_bit (unat bc) (take_bit (unat c) b)"
      using le by (simp add: take_bit_drop_bit)
    then have t: "take_bit (unat (c - bc)) (drop_bit (unat bc) b) = drop_bit (unat bc) b"
      by (simp add: u d)
    have c31: "unat (c - bc) \<le> 31" using d(3) by (simp add: u)
    define s' where "s' = s\<lparr>m_bitCounts := (m_bitCounts s)[i := c - bc],
                            m_bits := (m_bits s)[i := drop_bit (unat bc) b]\<rparr>"
    have g: "get_bits bc s = Inr (take_bit (unat bc) b, s')"
      unfolding s'_def b_def c_def i_def
      using True bc32 d(1,2) by (intro get_bits_cached) (simp_all add: i_def c_def)
    have "buffers_ok s'"
      by (rule buffers_ok_fields [OF ok c31 t]) (simp_all add: s'_def i_def)
    moreover have "m_ctrlIndex s' = m_ctrlIndex s" "native s' = native s" by (simp_all add: s'_def)
    ultimately show ?thesis using g by simp
  next
    case False
    then have lt: "c < bc" by simp
    then have ltn: "unat c < unat bc" by (simp add: word_less_nat_alt)
    define k where "k = unat bc - unat c"
    have k: "unat (bc - c) = k" using lt by (simp add: unat_sub k_def)
    have k31: "k \<le> 31" using bc by (simp add: k_def)
    have "bc - c \<le> BITS_PER_NATIVE_RANDOM"
      using k31 by (simp add: word_le_nat_alt k BITS_PER_NATIVE_RANDOM_def)
    then have u: "unat (BITS_PER_NATIVE_RANDOM - (bc - c)) = 31 - k"
      by (simp add: unat_sub k BITS_PER_NATIVE_RANDOM_def)
    define r where "r = fst (native_random LONG_MAX (native s))"
    have r: "take_bit 31 r = r" unfolding r_def by (rule native_random_LONG_MAX)
    have "take_bit (31 - k) (drop_bit k r) = drop_bit k (take_bit 31 r)"
      using k31 by (simp add: take_bit_drop_bit)
    then have t: "take_bit (unat (BITS_PER_NATIVE_RANDOM - (bc - c))) (drop_bit k r) = drop_bit k r"
      by (simp add: u r)
    have c31: "unat (BITS_PER_NATIVE_RANDOM - (bc - c)) \<le> 31" by (simp add: u)
    have "unat bc - k = unat c" "min (unat bc) k = k" using ltn by (simp_all add: k_def)
    then have v: "take_bit (unat bc) (push_bit k b OR take_bit k r) = push_bit k b OR take_bit k r"
      by (simp add: take_bit_push_bit d)
    define s' where "s' = s\<lparr>m_bits := (m_bits s)[i := drop_bit k r],
            m_bitCounts := (m_bitCounts s)[i := BITS_PER_NATIVE_RANDOM - (bc - c)],
            native := snd (native_random LONG_MAX (native s))\<rparr>"
    have "get_bits bc s = Inr (push_bit k b OR take_bit k r, s')"
      using get_bits_refill [of s bc] d(1,2) lt bc32
      by (simp add: i_def c_def b_def k_def r_def s'_def split_def Let_def)
    moreover have "buffers_ok s'"
      by (rule buffers_ok_fields [OF ok c31 t]) (simp_all add: s'_def i_def)
    moreover have "m_ctrlIndex s' = m_ctrlIndex s" "calls (native s') = Suc (calls (native s))"
      by (simp_all add: s'_def native_random_calls)
    ultimately show ?thesis using v by simp
  qed
qed

lemma get_bits_cached_ok:
  assumes ok: "buffers_ok s" and bc: "unat bc \<le> 31"
    and le: "bc \<le> m_bitCounts s ! unat (m_ctrlIndex s)"
  shows "\<exists>s'. get_bits bc s = Inr (take_bit (unat bc) (m_bits s ! unat (m_ctrlIndex s)), s')
           \<and> buffers_ok s' \<and> m_ctrlIndex s' = m_ctrlIndex s \<and> native s' = native s"
proof -
  obtain v s' where g: "get_bits bc s = Inr (v, s')" and p: "buffers_ok s'" "m_ctrlIndex s' = m_ctrlIndex s"
    using get_bits_ok [OF ok bc] by blast
  note d = buffers_okD [OF ok]
  have bc32: "unat bc < 32" using bc by simp
  from g have "v = take_bit (unat bc) (m_bits s ! unat (m_ctrlIndex s))" "native s' = native s"
    by (auto simp add: get_bits_cached [OF d(1,2) le bc32])
  with g p show ?thesis by simp
qed

lemma index_cases: assumes "unat (x :: 8 word) < 2" shows "x = 0 \<or> x = 1"
proof -
  from assms have "unat x = 0 \<or> unat x = 1" by auto
  then show ?thesis by (auto simp add: word_unat_eq_iff)
qed

lemma buffers_ok_toggle:
  assumes "buffers_ok s" shows "buffers_ok (s\<lparr>m_ctrlIndex := m_ctrlIndex s XOR 0x01\<rparr>)"
proof -
  from assms have "unat (m_ctrlIndex s) < 2" by (simp add: buffers_ok_def)
  then have "m_ctrlIndex s = 0 \<or> m_ctrlIndex s = 1" by (rule index_cases)
  then have "unat (m_ctrlIndex s XOR 0x01) < 2" by auto
  with assms show ?thesis by (simp add: buffers_ok_def)
qed

lemma long_ok_sint: "long_ok (sint (w :: 32 word))"
  using sint_ge [of w] sint_lt [of w] by (simp add: long_ok_def)

lemma sint_add_ok: assumes "long_ok (sint a + sint b)" shows "sint (a + b :: 32 word) = sint a + sint b"
proof -
  have "signed_take_bit 31 (sint a + sint b) = sint a + sint b"
    using assms by (intro signed_take_bit_int_eq_self) (simp_all add: long_ok_def)
  then show ?thesis by (simp add: sint_word_add)
qed

lemma sint_sub_ok: assumes "long_ok (sint a - sint b)" shows "sint (a - b :: 32 word) = sint a - sint b"
proof -
  have "signed_take_bit 31 (sint a - sint b) = sint a - sint b"
    using assms by (intro signed_take_bit_int_eq_self) (simp_all add: long_ok_def)
  then show ?thesis by (simp add: sint_word_diff)
qed

lemma take_bit_unat_less:
  assumes "take_bit n (w :: 32 word) = w" shows "unat w < 2 ^ n"
proof -
  have "unat (take_bit n w) < 2 ^ n" by (simp add: unsigned_take_bit_eq)
  then show ?thesis by (simp only: assms)
qed

lemma randomBits_clamped:
  "randomBits bc offset s =
     (if bc = 0 then Inr (0, s)
      else bind_ub (get_bits (if bc > 20 then 20 else bc) (s\<lparr>m_ctrlIndex := m_ctrlIndex s XOR 0x01\<rparr>))
             (\<lambda>(r, s2). bind_ub (add_long r offset) (\<lambda>v. Inr (v, s2))))"
  by (simp add: randomBits_def MAX_BITS_PER_RANDOM_REQUEST_def Let_def)

lemma randomBits_ok:
  assumes ok: "buffers_ok s"
  shows "\<exists>v s'. randomBits bc 0 s = Inr (v, s') \<and> buffers_ok s' \<and> unat v < 2 ^ 20
           \<and> take_bit (unat bc) v = v
           \<and> calls (native s) \<le> calls (native s') \<and> calls (native s') \<le> Suc (calls (native s))"
proof (cases "bc = 0")
  case True
  with ok show ?thesis by (simp add: randomBits_clamped)
next
  case False
  define b where "b = (if bc > 20 then 20 else bc)"
  have b20: "unat b \<le> 20" by (simp add: b_def word_less_nat_alt not_less word_le_nat_alt)
  then have b31: "unat b \<le> 31" by simp
  have bb: "unat b \<le> unat bc" by (simp add: b_def word_less_nat_alt)
  let ?t = "s\<lparr>m_ctrlIndex := m_ctrlIndex s XOR 0x01\<rparr>"
  obtain v s' where g: "get_bits b ?t = Inr (v, s')" and p: "buffers_ok s'" "take_bit (unat b) v = v"
    "calls (native ?t) \<le> calls (native s')" "calls (native s') \<le> Suc (calls (native ?t))"
    using get_bits_ok [OF buffers_ok_toggle [OF ok] b31] by blast
  have "unat v < 2 ^ unat b" using p(2) by (rule take_bit_unat_less)
  also have "(2::nat) ^ unat b \<le> 2 ^ 20" using b20 by (intro power_increasing) simp_all
  finally have v20: "unat v < 2 ^ 20" .
  have "take_bit (unat bc) (take_bit (unat b) v) = take_bit (unat b) v"
    using bb by (simp add: min_def)
  then have tv: "take_bit (unat bc) v = v" by (simp only: p(2))
  have "randomBits bc 0 s = Inr (v, s')"
    using False g by (simp add: randomBits_clamped b_def [symmetric] bind_ub_def add_long_def long_ok_sint)
  with p v20 tv show ?thesis by simp
qed

section \<open>The range sampler\<close>

lemma peek_bits_ok:
  assumes ok: "buffers_ok s" and bc: "unat bc \<le> 31"
  shows "\<exists>okf r s'. peek_bits bc num res s = Inr (okf, r, s') \<and> buffers_ok s' \<and> native s' = native s
           \<and> (okf \<longrightarrow> r < num) \<and> (\<not> okf \<longrightarrow> r = res)"
proof -
  note d = buffers_okD [OF ok]
  have bc32: "unat bc < 32" using bc by simp
  show ?thesis
  proof (cases "bc \<le> m_bitCounts s ! unat (m_ctrlIndex s)
      \<and> take_bit (unat bc) (m_bits s ! unat (m_ctrlIndex s)) < num")
    case True
    then obtain s' where "get_bits bc s = Inr (take_bit (unat bc) (m_bits s ! unat (m_ctrlIndex s)), s')"
      "buffers_ok s'" "native s' = native s"
      using get_bits_cached_ok [OF ok bc] by blast
    with True d(1,2) show ?thesis
      by (auto simp add: peek_bits_def Let_def bind_ub_def get_mask_eq [OF bc32] take_bit_eq_mask)
  next
    case False
    with d(1,2) ok show ?thesis
      by (auto simp add: peek_bits_def Let_def bind_ub_def get_mask_eq [OF bc32] take_bit_eq_mask)
  qed
qed

lemma sle_small:
  assumes "unat (a :: 32 word) < 2 ^ 31" "unat (b :: 32 word) < 2 ^ 31"
  shows "a \<le>s b \<longleftrightarrow> unat a \<le> unat b"
  by (simp only: word_sle_eq sint_small [OF assms(1)] sint_small [OF assms(2)] of_nat_le_iff)

lemma native_random_bound:
  assumes "0 < unat diff" "unat diff < 2 ^ 31"
  shows "unat (fst (native_random diff src)) < unat diff"
proof -
  have "0 < sint diff" using assms(1) by (simp only: sint_small [OF assms(2)] of_nat_0_less_iff)
  then have pos: "0 <s diff" by (simp add: word_sless_alt)
  define x where "x = raw src (seed src) (pos src) mod unat diff"
  have x: "x < unat diff" using assms(1) by (simp add: x_def)
  then have "x < 2 ^ 32" using assms(2) by simp
  then have "unat (word_of_nat x :: 32 word) = x" by (simp add: unat_of_nat)
  with x pos show ?thesis by (simp add: native_random_def x_def)
qed

lemma sample_ok:
  assumes ok: "buffers_ok s" and d0: "0 < unat diff" and d31: "unat diff < 2 ^ 31"
    and rq: "unat req \<le> 31"
  shows "\<exists>res s'. sample req diff s = Inr (res, s') \<and> buffers_ok s' \<and> unat res < unat diff
           \<and> calls (native s) \<le> calls (native s') \<and> calls (native s') \<le> calls (native s) + 3"
proof -
  have small: "unat v < 2 ^ 31" if "unat v < 2 ^ 20" for v :: "32 word"
    using that by simp
  obtain res1 s1 where r1: "randomBits req 0 s = Inr (res1, s1)" and ok1: "buffers_ok s1"
    and v1: "unat res1 < 2 ^ 20"
    and c1: "calls (native s) \<le> calls (native s1)" "calls (native s1) \<le> Suc (calls (native s))"
    using randomBits_ok [OF ok] by blast
  show ?thesis
  proof (cases "diff \<le>s res1")
    case False
    then have "unat res1 < unat diff" using sle_small [OF d31 small [OF v1]] by simp
    with False r1 ok1 c1 show ?thesis by (simp add: sample_def bind_ub_def)
  next
    case a1: True
    obtain res2 s2 where r2: "randomBits req 0 s1 = Inr (res2, s2)" and ok2: "buffers_ok s2"
      and v2: "unat res2 < 2 ^ 20"
      and c2: "calls (native s1) \<le> calls (native s2)" "calls (native s2) \<le> Suc (calls (native s1))"
      using randomBits_ok [OF ok1] by blast
    show ?thesis
    proof (cases "diff \<le>s res2")
      case False
      then have "unat res2 < unat diff" using sle_small [OF d31 small [OF v2]] by simp
      with False a1 r1 r2 ok2 c1 c2 show ?thesis by (simp add: sample_def bind_ub_def)
    next
      case a2: True
      obtain okf res3 s3 where p3: "peek_bits req diff res2 s2 = Inr (okf, res3, s3)"
        and ok3: "buffers_ok s3" and n3: "native s3 = native s2"
        and y3: "okf \<longrightarrow> res3 < diff" and z3: "\<not> okf \<longrightarrow> res3 = res2"
        using peek_bits_ok [OF ok2 rq] by blast
      show ?thesis
      proof (cases okf)
        case True
        then have "unat res3 < unat diff" using y3 by (simp add: word_less_nat_alt)
        with True a1 a2 r1 r2 p3 ok3 n3 c1 c2 show ?thesis by (simp add: sample_def bind_ub_def)
      next
        case f3: False
        then have e3: "res3 = res2" using z3 by simp
        let ?s4 = "s3\<lparr>m_ctrlIndex := m_ctrlIndex s3 XOR 0x01\<rparr>"
        have ok4: "buffers_ok ?s4" using ok3 by (rule buffers_ok_toggle)
        obtain okg res5 s5 where p5: "peek_bits req diff res2 ?s4 = Inr (okg, res5, s5)"
          and ok5: "buffers_ok s5" and n5: "native s5 = native ?s4"
          and y5: "okg \<longrightarrow> res5 < diff"
          using peek_bits_ok [OF ok4 rq] by blast
        show ?thesis
        proof (cases okg)
          case True
          then have "unat res5 < unat diff" using y5 by (simp add: word_less_nat_alt)
          with True f3 e3 a1 a2 r1 r2 p3 p5 ok5 n3 n5 c1 c2 show ?thesis
            by (simp add: sample_def bind_ub_def)
        next
          case False
          have b: "unat (fst (native_random diff (native s5))) < unat diff"
            using d0 d31 by (rule native_random_bound)
          have okn: "buffers_ok (s5\<lparr>native := n\<rparr>)" for n
            using ok5 by (simp add: buffers_ok_def)
          from False f3 e3 a1 a2 r1 r2 p3 p5 n3 n5 c1 c2 b okn show ?thesis
            by (simp add: sample_def bind_ub_def split_def Let_def native_random_calls)
        qed
      qed
    qed
  qed
qed

lemma MAX_VALUE_255: "(ucast MAX_VALUE_PER_RANDOM_REQUEST :: long) = 255"
  by (simp add: MAX_VALUE_PER_RANDOM_REQUEST_def MAX_BITS_PER_RANDOM_REQUEST_def)

lemma uint_of_sint_nonneg:
  assumes "0 \<le> sint (w :: 32 word)" shows "uint w = sint w"
proof -
  have "sint w < 2 ^ 32" using sint_lt [of w] by simp
  with assms have "take_bit 32 (sint w) = sint w" by (intro take_bit_int_eq_self)
  then show ?thesis by (simp add: uint_sint)
qed

lemma random_overflow:
  assumes "\<not> long_ok (sint max_val - sint min_val - 1) \<or> \<not> long_ok (sint max_val - sint min_val)"
  shows "random min_val max_val s = Inl SignedOverflow"
  using assms by (auto simp add: random_def sub_long_def bind_ub_def sint_sub_ok)

lemma random_diff:
  assumes "long_ok (sint max_val - sint min_val - 1)" "long_ok (sint max_val - sint min_val)"
  shows "random min_val max_val s =
     (let diff = max_val - min_val - 1 in
       if diff \<le>s 0 then Inr (0, s)
       else
         let diff1 = (if 255 <s diff then 255 else diff)
         in bind_ub (get_required_bits diff1) (\<lambda>req_bits.
            bind_ub (sample req_bits diff1 s) (\<lambda>(res, s1).
            bind_ub (add_long res min_val) (\<lambda>v. Inr (v, s1)))))"
  and "sint (max_val - min_val - 1) = sint max_val - sint min_val - 1"
proof -
  have d: "sub_long max_val min_val = Inr (max_val - min_val)"
    using assms(2) by (simp add: sub_long_def)
  have e: "sint (max_val - min_val) = sint max_val - sint min_val"
    using assms(2) by (rule sint_sub_ok)
  have "long_ok (sint (max_val - min_val) - sint (1 :: long))" using assms(1) by (simp add: e)
  then have f: "sub_long (max_val - min_val) 1 = Inr (max_val - min_val - 1)"
    and g: "sint (max_val - min_val - 1) = sint (max_val - min_val) - sint (1 :: long)"
    by (simp_all only: sub_long_def if_True sint_sub_ok)
  show "random min_val max_val s =
     (let diff = max_val - min_val - 1 in
       if diff \<le>s 0 then Inr (0, s)
       else
         let diff1 = (if 255 <s diff then 255 else diff)
         in bind_ub (get_required_bits diff1) (\<lambda>req_bits.
            bind_ub (sample req_bits diff1 s) (\<lambda>(res, s1).
            bind_ub (add_long res min_val) (\<lambda>v. Inr (v, s1)))))"
    unfolding random_def MAX_VALUE_255 by (simp add: bind_ub_def d f)
  show "sint (max_val - min_val - 1) = sint max_val - sint min_val - 1"
    by (simp add: g e)
qed

lemma random_degenerate:
  assumes "sint max_val - sint min_val \<le> 1" "- (2 ^ 31) < sint max_val - sint min_val"
  shows "random min_val max_val s = Inr (0, s)"
proof -
  have l: "long_ok (sint max_val - sint min_val - 1)" "long_ok (sint max_val - sint min_val)"
    using assms by (simp_all add: long_ok_def)
  have "max_val - min_val - 1 \<le>s 0"
    using assms(1) by (simp add: word_sle_eq random_diff(2) [OF l])
  then show ?thesis by (simp add: random_diff(1) [OF l])
qed

lemma random_ok:
  assumes ok: "buffers_ok s" and lo: "2 \<le> sint max_val - sint min_val"
    and hi: "sint max_val - sint min_val \<le> 2 ^ 31 - 1"
  shows "\<exists>v s'. random min_val max_val s = Inr (v, s') \<and> buffers_ok s'
           \<and> sint min_val \<le> sint v \<and> sint v < sint max_val - 1 \<and> sint v < sint min_val + 255
           \<and> calls (native s) \<le> calls (native s') \<and> calls (native s') \<le> calls (native s) + 3"
proof -
  have l: "long_ok (sint max_val - sint min_val - 1)" "long_ok (sint max_val - sint min_val)"
    using lo hi by (simp_all add: long_ok_def)
  define diff where "diff = max_val - min_val - 1"
  have sd: "sint diff = sint max_val - sint min_val - 1"
    unfolding diff_def by (rule random_diff(2) [OF l])
  have pos: "\<not> diff \<le>s 0" using lo by (simp add: word_sle_eq sd)
  define diff1 :: long where "diff1 = (if 255 <s diff then 255 else diff)"
  have s1: "0 < sint diff1" "sint diff1 \<le> 255" "sint diff1 \<le> sint diff"
    using lo by (auto simp add: diff1_def word_sless_alt sd)
  have u1: "uint diff1 = sint diff1" using s1(1) by (intro uint_of_sint_nonneg) simp
  have n1c: "int (unat diff1) = sint diff1" using u1 by simp
  have "int 0 < int (unat diff1)" "int (unat diff1) \<le> int 255"
    using s1 by (simp_all only: n1c of_nat_0 of_nat_numeral)
  then have n1ab: "0 < unat diff1" "unat diff1 \<le> 255"
    by (simp_all only: of_nat_less_iff of_nat_le_iff)
  note n1 = n1ab n1c
  then have n31: "unat diff1 < 2 ^ 31" by simp
  define req :: uint8_t where "req = word_of_nat (floorlog 2 (unat diff1))"
  have rq: "get_required_bits diff1 = Inr req"
    unfolding req_def using n31 by (rule grb)
  have "unat diff1 < 2 ^ 8" using n1(2) by simp
  then have "floorlog 2 (unat diff1) \<le> 8" by (intro floorlog_leI) simp_all
  then have r31: "unat req \<le> 31" by (simp add: req_def unat_of_nat)
  obtain res s' where sm: "sample req diff1 s = Inr (res, s')" and ok': "buffers_ok s'"
    and rd: "unat res < unat diff1"
    and cl: "calls (native s) \<le> calls (native s')" "calls (native s') \<le> calls (native s) + 3"
    using sample_ok [OF ok n1(1) n31 r31] by blast
  have "unat res < 2 ^ 31" using rd n1(2) by simp
  then have sr: "sint res = int (unat res)" by (rule sint_small)
  have "int (unat res) < int (unat diff1)" using rd by (simp only: of_nat_less_iff)
  then have b2: "sint res < sint diff1" by (simp only: sr n1c)
  have b1: "0 \<le> sint res" by (simp only: sr of_nat_0_le_iff)
  note b = b1 b2
  have lk: "long_ok (sint res + sint min_val)"
    using b s1 sd sint_ge [of min_val] sint_lt [of max_val] by (simp add: long_ok_def)
  then have sv: "sint (res + min_val) = sint res + sint min_val" by (rule sint_add_ok)
  have "random min_val max_val s = Inr (res + min_val, s')"
    using pos rq sm lk
    by (simp add: random_diff(1) [OF l] diff_def [symmetric] diff1_def [symmetric] Let_def bind_ub_def add_long_def)
  moreover have "sint min_val \<le> sint (res + min_val)" "sint (res + min_val) < sint max_val - 1"
    "sint (res + min_val) < sint min_val + 255"
    using b s1 sd by (simp_all add: sv)
  ultimately show ?thesis using ok' cl by simp
qed

section \<open>Reachable states are well-formed\<close>

lemma buffers_ok_new: "buffers_ok (RandomX1_new sd src)"
proof -
  have "take_bit 31 (fst (native_random LONG_MAX src)) = fst (native_random LONG_MAX src)"
    "take_bit 31 (fst (native_random LONG_MAX (snd (native_random LONG_MAX src))))
       = fst (native_random LONG_MAX (snd (native_random LONG_MAX src)))"
    by (rule native_random_LONG_MAX)+
  then show ?thesis
    by (simp add: RandomX1_new_def buffers_ok_def split_def Let_def BITS_PER_NATIVE_RANDOM_def)
qed

lemma buffers_ok_randomSeed: "buffers_ok s \<Longrightarrow> buffers_ok (randomSeed sd s)"
  by (simp add: randomSeed_def buffers_ok_def)

lemma randomBits_cases:
  assumes ok: "buffers_ok s" and nz: "bc \<noteq> 0"
  shows "\<exists>r s'. unat r < 2 ^ min (unat bc) 20 \<and> buffers_ok s'
           \<and> calls (native s) \<le> calls (native s') \<and> calls (native s') \<le> Suc (calls (native s))
           \<and> randomBits bc offset s =
               (if long_ok (sint r + sint offset) then Inr (r + offset, s') else Inl SignedOverflow)"
proof -
  define b where "b = (if bc > 20 then 20 else bc)"
  have bm: "unat b = min (unat bc) 20"
    by (simp add: b_def word_less_nat_alt min_def)
  then have b31: "unat b \<le> 31" by simp
  let ?t = "s\<lparr>m_ctrlIndex := m_ctrlIndex s XOR 0x01\<rparr>"
  obtain r s' where g: "get_bits b ?t = Inr (r, s')" and p: "buffers_ok s'" "take_bit (unat b) r = r"
    "calls (native ?t) \<le> calls (native s')" "calls (native s') \<le> Suc (calls (native ?t))"
    using get_bits_ok [OF buffers_ok_toggle [OF ok] b31] by blast
  have "unat r < 2 ^ unat b" using p(2) by (rule take_bit_unat_less)
  then have "unat r < 2 ^ min (unat bc) 20" by (simp only: bm)
  moreover have "randomBits bc offset s =
      (if long_ok (sint r + sint offset) then Inr (r + offset, s') else Inl SignedOverflow)"
    using nz g by (simp add: randomBits_clamped b_def [symmetric] bind_ub_def add_long_def)
  ultimately show ?thesis using p by auto
qed

lemma randomBits_buffers_ok:
  assumes "buffers_ok s" "randomBits bc offset s = Inr (v, s')"
  shows "buffers_ok s'"
proof (cases "bc = 0")
  case True
  with assms show ?thesis by (simp add: randomBits_clamped)
next
  case False
  from randomBits_cases [OF assms(1) False, of offset] assms(2) show ?thesis
    by (auto split: if_splits)
qed

lemma random_overflow_range:
  assumes "sint max_val - sint min_val \<le> - (2 ^ 31) \<or> 2 ^ 31 \<le> sint max_val - sint min_val"
  shows "random min_val max_val s = Inl SignedOverflow"
  using assms by (intro random_overflow) (auto simp add: long_ok_def)

lemma random_buffers_ok:
  assumes ok: "buffers_ok s" and r: "random min_val max_val s = Inr (v, s')"
  shows "buffers_ok s'"
proof -
  consider (ov) "sint max_val - sint min_val \<le> - (2 ^ 31) \<or> 2 ^ 31 \<le> sint max_val - sint min_val"
    | (deg) "sint max_val - sint min_val \<le> 1" "- (2 ^ 31) < sint max_val - sint min_val"
    | (run) "2 \<le> sint max_val - sint min_val" "sint max_val - sint min_val \<le> 2 ^ 31 - 1"
    by linarith
  then show ?thesis
  proof cases
    case ov
    from random_overflow_range [OF ov] r show ?thesis by simp
  next
    case deg
    from random_degenerate [OF deg] r ok show ?thesis by simp
  next
    case run
    from random_ok [OF ok run] r show ?thesis by auto
  qed
qed

lemma reachable_buffers_ok: "reachable s \<Longrightarrow> buffers_ok s"
proof (induction rule: reachable.induct)
  case (constructed sd src)
  show ?case by (rule buffers_ok_new)
next
  case (reseeded s sd)
  then show ?case by (simp add: buffers_ok_randomSeed)
next
  case (drew_bits s bit_count offset v s')
  then show ?case by (blast intro: randomBits_buffers_ok)
next
  case (drew_range s min_val max_val v s')
  then show ?case by (blast intro: random_buffers_ok)
next
  case (drew_max s max_val v s')
  then show ?case unfolding random_max_def by (blast intro: random_buffers_ok)
qed

section \<open>The example generator is reachable\<close>

lemma gen0_eq: "gen0 = \<lparr>m_bits = [0x12345, 0x12346], m_bitCounts = [31, 31], m_ctrlIndex = 0,
    native = \<lparr>raw = (\<lambda>sd k. 74565 + k), seed = 0, pos = 0, calls = 2\<rparr>\<rparr>"
  by (simp add: gen0_def src0_def RandomX1_new_def native_random_def native_randomSeed_def LONG_MAX_def
      BITS_PER_NATIVE_RANDOM_def word_sless_alt)

lemma reachable_gen0: "reachable gen0"
  unfolding gen0_def by (rule reachable.constructed)

section \<open>Public entry points\<close>

text \<open>
  C10. For every seed and every generator state, \<^verbatim>\<open>randomSeed\<close> leaves \<^verbatim>\<open>m_bits\<close>,
  \<^verbatim>\<open>m_bitCounts\<close> (both elements of each) and \<^verbatim>\<open>m_ctrlIndex\<close> as they were; the state
  after the call differs from the state before only in the native source, which has been
  reseeded.
\<close>

theorem randomSeed_keeps_buffers:
  "m_bits (randomSeed sd s) = m_bits s \<and> m_bitCounts (randomSeed sd s) = m_bitCounts s
   \<and> m_ctrlIndex (randomSeed sd s) = m_ctrlIndex s
   \<and> randomSeed sd s = s\<lparr>native := native_randomSeed sd (native s)\<rparr>"
  by (simp add: randomSeed_def)

text \<open>
  C2, as the spec states it: \<^verbatim>\<open>randomBits(0, offset)\<close> returns \<open>offset\<close>. On the example
  generator \<^verbatim>\<open>randomBits(0, 5)\<close> returns 0, not 5.
\<close>

theorem randomBits_zero_offset_counterexample:
  "randomBits 0 5 gen0 = Inr (0, gen0) \<and> randomBits 0 5 gen0 \<noteq> Inr (5, gen0)"
  by (simp add: randomBits_def)

text \<open>
  C2, amended: for every offset and every state, \<^verbatim>\<open>randomBits(0, offset)\<close> returns 0 and
  leaves the whole state, buffers included, unchanged.
\<close>

theorem randomBits_zero_returns_zero:
  "randomBits 0 offset s = Inr (0, s)"
  by (simp add: randomBits_def)

section \<open>The range sampler: results\<close>

text \<open>
  C1. The spec gives the maximum representable value of a range request, and the
  constant \<^verbatim>\<open>MAX_VALUE_PER_RANDOM_REQUEST\<close>, as \<open>2^20 - 1\<close>. The constant is declared
  \<^verbatim>\<open>uint8_t\<close>, so its value is 255. On the example generator \<^verbatim>\<open>random(0, 2000000)\<close>
  clamps the span to 255, asks for 8 bits of the buffer \<open>0x12346\<close> and returns
  \<open>0x46 = 70\<close>; a span clamped to \<open>2^20 - 1\<close> would take 20 bits and return 74566.
\<close>

theorem max_value_is_255:
  "unat MAX_VALUE_PER_RANDOM_REQUEST = 255
   \<and> random 0 2000000 gen0 =
       Inr (70, \<lparr>m_bits = [0x12345, 0x123], m_bitCounts = [31, 23], m_ctrlIndex = 1,
                 native = \<lparr>raw = (\<lambda>sd k. 74565 + k), seed = 0, pos = 0, calls = 2\<rparr>\<rparr>)"
proof -
  have mv: "MAX_VALUE_PER_RANDOM_REQUEST = 255"
    by (simp add: MAX_VALUE_PER_RANDOM_REQUEST_def MAX_BITS_PER_RANDOM_REQUEST_def)
  have grb255: "get_required_bits 255 = Inr 8"
    by (simp add: get_required_bits_def REQUIRED_BITS_def array_at_def bind_ub_def)
  have gm8: "get_mask 8 = Inr 255"
    by (simp add: get_mask_def MASKS_def array_at_def)
  show ?thesis
    by (simp add: gen0_eq random_def sample_def randomBits_def get_bits_def gm8 grb255 mv bind_ub_def
     sub_long_def add_long_def long_ok_def MAX_BITS_PER_RANDOM_REQUEST_def word_sless_alt word_sle_eq)
qed

text \<open>
  C3, as the spec states it: for \<open>max > min\<close> the result lies in \<open>[min, max)\<close>. With
  \<open>min = 5\<close> and \<open>max = 6\<close> the span \<open>max - min - 1\<close> is 0, the guard
  \<^verbatim>\<open>if(diff <= 0) return 0;\<close> fires, and the result 0 is not in \<open>[5, 6)\<close>.
\<close>

theorem random_unit_range_counterexample:
  "random 5 6 gen0 = Inr (0, gen0) \<and> \<not> (sint (5 :: long) \<le> sint (0 :: long) \<and> sint (0 :: long) < sint (6 :: long))"
proof -
  have "random 5 6 gen0 = Inr (0, gen0)" by (rule random_degenerate) simp_all
  then show ?thesis by simp
qed

text \<open>
  C3, amended: from every reachable state, for every \<open>min\<close> and \<open>max\<close> with
  \<open>max - min \<ge> 2\<close> (and \<open>max - min\<close> a \<^verbatim>\<open>long\<close>, which the C++ subtraction needs)
  \<^verbatim>\<open>random(min, max)\<close> returns a value \<open>v\<close> with \<open>min \<le> v < max\<close>; for
  \<open>max - min \<le> 1\<close>, which includes \<open>max \<le> min\<close>, it returns 0 and leaves the state
  as it was (given that \<open>max - min - 1\<close> is a \<^verbatim>\<open>long\<close>).
\<close>

theorem random_in_range:
  assumes "reachable s"
  shows "(2 \<le> sint max_val - sint min_val \<and> long_ok (sint max_val - sint min_val) \<longrightarrow>
           (\<exists>v s'. random min_val max_val s = Inr (v, s') \<and> sint min_val \<le> sint v \<and> sint v < sint max_val))
       \<and> (sint max_val - sint min_val \<le> 1 \<and> long_ok (sint max_val - sint min_val - 1) \<longrightarrow>
           random min_val max_val s = Inr (0, s))"
proof (intro conjI impI)
  assume a: "2 \<le> sint max_val - sint min_val \<and> long_ok (sint max_val - sint min_val)"
  then have "sint max_val - sint min_val \<le> 2 ^ 31 - 1" by (simp add: long_ok_def)
  from random_ok [OF reachable_buffers_ok [OF assms] conjunct1 [OF a] this]
  obtain v s' where "random min_val max_val s = Inr (v, s')" "sint min_val \<le> sint v" "sint v < sint max_val - 1"
    by blast
  then show "\<exists>v s'. random min_val max_val s = Inr (v, s') \<and> sint min_val \<le> sint v \<and> sint v < sint max_val"
    by auto
next
  assume "sint max_val - sint min_val \<le> 1 \<and> long_ok (sint max_val - sint min_val - 1)"
  then show "random min_val max_val s = Inr (0, s)"
    by (intro random_degenerate) (simp_all add: long_ok_def)
qed

theorem random_in_range_witness:
  "reachable gen0
   \<and> 2 \<le> sint (10 :: long) - sint (3 :: long) \<and> long_ok (sint (10 :: long) - sint (3 :: long))
   \<and> (\<exists>v s'. random 3 10 gen0 = Inr (v, s') \<and> sint (3 :: long) \<le> sint v \<and> sint v < sint (10 :: long))
   \<and> sint (7 :: long) - sint (7 :: long) \<le> 1 \<and> long_ok (sint (7 :: long) - sint (7 :: long) - 1)
   \<and> random 7 7 gen0 = Inr (0, gen0)"
  using random_in_range [OF reachable_gen0, of 10 3] random_in_range [OF reachable_gen0, of 7 7]
  by (simp add: reachable_gen0 long_ok_def)

lemma sint_small20: assumes "unat (r :: 32 word) < 2 ^ n" "n \<le> 20"
  shows "sint r = int (unat r)" "int (unat r) < 2 ^ n"
proof -
  have "(2 :: nat) ^ n \<le> 2 ^ 20" using assms(2) by (intro power_increasing) simp_all
  then have "unat r < 2 ^ 31" using assms(1) by simp
  then show "sint r = int (unat r)" by (rule sint_small)
  have "int (unat r) < int (2 ^ n)" using assms(1) by (simp only: of_nat_less_iff)
  then show "int (unat r) < 2 ^ n" by simp
qed

text \<open>
  C4, as the spec states it: for every count in \<open>[1, 20]\<close> and every offset the result
  lies in \<open>[offset, offset + 2^count)\<close>. With count 8 and offset \<^verbatim>\<open>LONG_MAX\<close> the
  example generator draws \<open>0x46 = 70\<close>, and \<^verbatim>\<open>_get_bits(bit_count) + offset\<close> overflows
  \<^verbatim>\<open>long\<close>: no value of \<open>[offset, offset + 2^8)\<close> is returned.
\<close>

theorem randomBits_offset_overflow_counterexample:
  "reachable gen0 \<and> 1 \<le> unat (8 :: uint8_t) \<and> unat (8 :: uint8_t) \<le> 20
   \<and> randomBits 8 2147483647 gen0 = Inl SignedOverflow"
proof -
  have gm8: "get_mask 8 = Inr 255"
    by (simp add: get_mask_def MASKS_def array_at_def)
  have "randomBits 8 2147483647 gen0 = Inl SignedOverflow"
    by (simp add: gen0_eq randomBits_def get_bits_def gm8 bind_ub_def add_long_def long_ok_def
          MAX_BITS_PER_RANDOM_REQUEST_def)
  then show ?thesis by (simp add: reachable_gen0)
qed

text \<open>
  C4, amended: from every reachable state, for every count in \<open>[1, 20]\<close> and every offset
  with \<open>offset + 2^count - 1 \<le> LONG_MAX\<close> (the interval fits in a \<^verbatim>\<open>long\<close>),
  \<^verbatim>\<open>randomBits(count, offset)\<close> returns a value in \<open>[offset, offset + 2^count)\<close>; for a
  count above 20 the call is the call with count 20.
\<close>

theorem randomBits_in_range:
  assumes "reachable s"
  shows "(1 \<le> unat bit_count \<and> unat bit_count \<le> 20
            \<and> sint offset + 2 ^ unat bit_count - 1 \<le> sint LONG_MAX \<longrightarrow>
           (\<exists>v s'. randomBits bit_count offset s = Inr (v, s')
                \<and> sint offset \<le> sint v \<and> sint v < sint offset + 2 ^ unat bit_count))
       \<and> (20 < unat bit_count \<longrightarrow> randomBits bit_count offset s = randomBits 20 offset s)"
proof (intro conjI impI)
  assume a: "1 \<le> unat bit_count \<and> unat bit_count \<le> 20
            \<and> sint offset + 2 ^ unat bit_count - 1 \<le> sint LONG_MAX"
  then have nz: "bit_count \<noteq> 0" and le: "unat bit_count \<le> 20"
    and fit: "sint offset + 2 ^ unat bit_count \<le> 2 ^ 31"
    by (auto simp add: LONG_MAX_def)
  have m: "min (unat bit_count) 20 = unat bit_count" using le by simp
  obtain r s' where r: "unat r < 2 ^ unat bit_count"
    and e: "randomBits bit_count offset s =
               (if long_ok (sint r + sint offset) then Inr (r + offset, s') else Inl SignedOverflow)"
    using randomBits_cases [OF reachable_buffers_ok [OF assms] nz, of offset] unfolding m by blast
  note sr = sint_small20 [OF r le]
  have r0: "0 \<le> sint r" by (simp only: sr of_nat_0_le_iff)
  have r1: "sint r < 2 ^ unat bit_count" using sr(2) by (simp only: sr(1))
  have ok: "long_ok (sint r + sint offset)"
    using r0 r1 fit sint_ge [of offset] by (simp add: long_ok_def)
  then have "sint (r + offset) = sint r + sint offset" by (rule sint_add_ok)
  with ok e r0 r1
  show "\<exists>v s'. randomBits bit_count offset s = Inr (v, s')
                \<and> sint offset \<le> sint v \<and> sint v < sint offset + 2 ^ unat bit_count"
    by simp
next
  assume "20 < unat bit_count"
  then have "bit_count > 20" "bit_count \<noteq> 0" by (auto simp add: word_less_nat_alt)
  then show "randomBits bit_count offset s = randomBits 20 offset s"
    by (simp add: randomBits_clamped)
qed

theorem randomBits_in_range_witness:
  "reachable gen0 \<and> 1 \<le> unat (3 :: uint8_t) \<and> unat (3 :: uint8_t) \<le> 20
   \<and> sint (5 :: long) + 2 ^ unat (3 :: uint8_t) - 1 \<le> sint LONG_MAX
   \<and> (\<exists>v s'. randomBits 3 5 gen0 = Inr (v, s') \<and> sint (5 :: long) \<le> sint v
           \<and> sint v < sint (5 :: long) + 2 ^ unat (3 :: uint8_t))
   \<and> 20 < unat (25 :: uint8_t) \<and> randomBits 25 5 gen0 = randomBits 20 5 gen0"
  using randomBits_in_range [OF reachable_gen0, of 3 5] randomBits_in_range [OF reachable_gen0, of 25 5]
  by (simp add: reachable_gen0 LONG_MAX_def)



text \<open>
  C8, as the spec states it: for every \<open>min\<close> and \<open>max\<close> with \<open>max - min \<ge> 2\<close> the
  result lies in \<open>[min, max - 1)\<close>. With \<open>min\<close> the least \<^verbatim>\<open>long\<close> and \<open>max = 1\<close> the
  subtraction \<^verbatim>\<open>max_val - min_val\<close> overflows \<^verbatim>\<open>long\<close>: no value of \<open>[min, max - 1)\<close>
  is returned.
\<close>

theorem random_span_overflow_counterexample:
  "reachable gen0 \<and> 2 \<le> sint (1 :: long) - sint (- 2147483648 :: long)
   \<and> random (- 2147483648) 1 gen0 = Inl SignedOverflow"
proof -
  have "random (- 2147483648) 1 gen0 = Inl SignedOverflow"
    by (rule random_overflow) (simp add: long_ok_def)
  then show ?thesis by (simp add: reachable_gen0)
qed

text \<open>
  C8, amended: from every reachable state, for every \<open>min\<close> and \<open>max\<close> with
  \<open>max - min \<ge> 2\<close> and \<open>max - min \<le> LONG_MAX\<close> (the span is a \<^verbatim>\<open>long\<close>),
  \<^verbatim>\<open>random(min, max)\<close> returns a value in \<open>[min, max - 1)\<close>, so never \<open>max - 1\<close>. The
  second part is the reason: whatever the two draws, the two peeks and the native
  fallback produce, the candidate that leaves them lies in \<open>[0, span)\<close>.
\<close>

theorem random_below_max_minus_1:
  assumes "reachable s" and "2 \<le> sint max_val - sint min_val"
    and "sint max_val - sint min_val \<le> sint LONG_MAX"
  shows "(\<exists>v s'. random min_val max_val s = Inr (v, s')
              \<and> sint min_val \<le> sint v \<and> sint v < sint max_val - 1)
       \<and> (0 < sint diff \<and> unat req_bits \<le> 31 \<longrightarrow>
            (\<exists>res s'. sample req_bits diff s = Inr (res, s') \<and> 0 \<le> sint res \<and> sint res < sint diff))"
proof (intro conjI impI)
  note ok = reachable_buffers_ok [OF assms(1)]
  have hi: "sint max_val - sint min_val \<le> 2 ^ 31 - 1" using assms(3) by (simp add: LONG_MAX_def)
  from random_ok [OF ok assms(2) hi]
  show "\<exists>v s'. random min_val max_val s = Inr (v, s')
              \<and> sint min_val \<le> sint v \<and> sint v < sint max_val - 1"
    by blast
  assume a: "0 < sint diff \<and> unat req_bits \<le> 31"
  then have u: "uint diff = sint diff" by (intro uint_of_sint_nonneg) simp
  have n: "int (unat diff) = sint diff" using u by simp
  have "0 < int (unat diff)" using a by (simp only: n)
  then have d0: "0 < unat diff" by (simp only: of_nat_0_less_iff)
  have "int (unat diff) < 2 ^ 31" using sint_lt [of diff] by (simp only: n) simp
  then have "int (unat diff) < int (2 ^ 31)" by simp
  then have d31: "unat diff < 2 ^ 31" by (simp only: of_nat_less_iff)
  obtain res s' where sm: "sample req_bits diff s = Inr (res, s')" and lt: "unat res < unat diff"
    using sample_ok [OF ok d0 d31 conjunct2 [OF a]] by blast
  have "unat res < 2 ^ 31" using lt d31 by simp
  then have sr: "sint res = int (unat res)" by (rule sint_small)
  have "int (unat res) < int (unat diff)" using lt by (simp only: of_nat_less_iff)
  then have "sint res < sint diff" by (simp only: sr n)
  moreover have "0 \<le> sint res" by (simp only: sr of_nat_0_le_iff)
  ultimately show "\<exists>res s'. sample req_bits diff s = Inr (res, s') \<and> 0 \<le> sint res \<and> sint res < sint diff"
    using sm by blast
qed

theorem random_below_max_minus_1_witness:
  "reachable gen0 \<and> 2 \<le> sint (10 :: long) - sint (3 :: long)
   \<and> sint (10 :: long) - sint (3 :: long) \<le> sint LONG_MAX
   \<and> (\<exists>v s'. random 3 10 gen0 = Inr (v, s') \<and> sint (3 :: long) \<le> sint v \<and> sint v < sint (10 :: long) - 1)
   \<and> 0 < sint (6 :: long) \<and> unat (3 :: uint8_t) \<le> 31
   \<and> (\<exists>res s'. sample 3 6 gen0 = Inr (res, s') \<and> 0 \<le> sint res \<and> sint res < sint (6 :: long))"
proof -
  have h: "2 \<le> sint (10 :: long) - sint (3 :: long)" by simp
  have k: "sint (10 :: long) - sint (3 :: long) \<le> sint LONG_MAX" by (simp add: LONG_MAX_def)
  show ?thesis
    using random_below_max_minus_1 [OF reachable_gen0 h k, of 6 3] by (simp add: reachable_gen0 LONG_MAX_def)
qed

text \<open>
  C9, as the spec states it: \<^verbatim>\<open>random(max)\<close> with \<open>max \<le> 0\<close> returns 0. With \<open>max\<close> the
  least \<^verbatim>\<open>long\<close> the span \<^verbatim>\<open>max_val - min_val - 1\<close> overflows \<^verbatim>\<open>long\<close> before the
  guard is reached: the call does not return 0 with the state untouched.
\<close>

theorem random_max_least_long_counterexample:
  "sint (- 2147483648 :: long) \<le> 0
   \<and> random_max (- 2147483648) gen0 = Inl SignedOverflow
   \<and> random_max (- 2147483648) gen0 \<noteq> Inr (0, gen0)"
proof -
  have "random 0 (- 2147483648) gen0 = Inl SignedOverflow"
    by (rule random_overflow) (simp add: long_ok_def)
  then show ?thesis by (simp add: random_max_def)
qed

text \<open>
  C9, amended: in every state, \<^verbatim>\<open>random(max)\<close> with \<open>LONG_MIN < max \<le> 0\<close>, and
  \<^verbatim>\<open>random(min, max)\<close> with \<open>max - min \<le> 1\<close> and \<open>max - min - 1 \<ge> LONG_MIN\<close> (the span is
  a \<^verbatim>\<open>long\<close>), return 0 with the state, buffers included, exactly as it was: an early
  return, and a value, not an error.
\<close>

theorem degenerate_ranges_return_zero:
  "(sint max_val \<le> 0 \<and> - (2 ^ 31) < sint max_val \<longrightarrow> random_max max_val s = Inr (0, s))
   \<and> (sint max_val - sint min_val \<le> 1 \<and> - (2 ^ 31) \<le> sint max_val - sint min_val - 1 \<longrightarrow>
        random min_val max_val s = Inr (0, s))"
proof (intro conjI impI)
  assume "sint max_val \<le> 0 \<and> - (2 ^ 31) < sint max_val"
  then have "random 0 max_val s = Inr (0, s)"
    by (intro random_degenerate) simp_all
  then show "random_max max_val s = Inr (0, s)" by (simp add: random_max_def)
next
  assume "sint max_val - sint min_val \<le> 1 \<and> - (2 ^ 31) \<le> sint max_val - sint min_val - 1"
  then show "random min_val max_val s = Inr (0, s)"
    by (intro random_degenerate) simp_all
qed

theorem degenerate_ranges_return_zero_witness:
  "sint (- 4 :: long) \<le> 0 \<and> - (2 ^ 31) < sint (- 4 :: long) \<and> random_max (- 4) gen0 = Inr (0, gen0)
   \<and> sint (6 :: long) - sint (5 :: long) \<le> 1 \<and> - (2 ^ 31) \<le> sint (6 :: long) - sint (5 :: long) - 1
   \<and> random 5 6 gen0 = Inr (0, gen0)"
  using degenerate_ranges_return_zero [where max_val = "- 4" and s = gen0]
    degenerate_ranges_return_zero [where max_val = 6 and min_val = 5 and s = gen0]
  by simp

section \<open>The cache buffers\<close>

lemma valid_bits_ok: "buffers_ok t \<Longrightarrow> valid_bits t = m_bits t ! unat (m_ctrlIndex t)"
  by (simp add: valid_bits_def buffers_okD(4))

lemma get_bits_spec_extract:
  assumes ok: "buffers_ok t" and bc: "unat bit_count \<le> 31"
  shows "\<exists>t'. get_bits bit_count t = Inr (spec_extract bit_count t, t')"
proof -
  note d = buffers_okD [OF ok]
  have bc32: "unat bit_count < 32" using bc by simp
  show ?thesis
  proof (cases "bit_count \<le> m_bitCounts t ! unat (m_ctrlIndex t)")
    case True
    then show ?thesis
      by (simp add: get_bits_cached [OF d(1,2) True bc32] spec_extract_def valid_bits_ok [OF ok])
  next
    case False
    then have lt: "m_bitCounts t ! unat (m_ctrlIndex t) < bit_count" by simp
    show ?thesis using False
      by (simp add: get_bits_refill [OF d(1,2) lt bc32] spec_extract_def valid_bits_ok [OF ok]
            Let_def split_def)
  qed
qed

lemma peek_bits_valid_bits:
  assumes ok: "buffers_ok t" and bc: "unat bit_count \<le> 31"
  shows "(bit_count \<le> m_bitCounts t ! unat (m_ctrlIndex t) \<and> take_bit (unat bit_count) (valid_bits t) < num
           \<longrightarrow> (\<exists>t'. peek_bits bit_count num res t = Inr (True, take_bit (unat bit_count) (valid_bits t), t')))
       \<and> (\<not> (bit_count \<le> m_bitCounts t ! unat (m_ctrlIndex t) \<and> take_bit (unat bit_count) (valid_bits t) < num)
           \<longrightarrow> peek_bits bit_count num res t = Inr (False, res, t))"
proof -
  note d = buffers_okD [OF ok]
  have bc32: "unat bit_count < 32" using bc by simp
  show ?thesis
  proof (intro conjI impI)
    assume a: "bit_count \<le> m_bitCounts t ! unat (m_ctrlIndex t) \<and> take_bit (unat bit_count) (valid_bits t) < num"
    then show "\<exists>t'. peek_bits bit_count num res t = Inr (True, take_bit (unat bit_count) (valid_bits t), t')"
      using d(1,2)
      by (simp add: peek_bits_def Let_def bind_ub_def get_mask_eq [OF bc32] take_bit_eq_mask [symmetric]
            get_bits_cached [OF d(1,2) conjunct1 [OF a] bc32] valid_bits_ok [OF ok])
  next
    assume "\<not> (bit_count \<le> m_bitCounts t ! unat (m_ctrlIndex t) \<and> take_bit (unat bit_count) (valid_bits t) < num)"
    then show "peek_bits bit_count num res t = Inr (False, res, t)"
      using d(1,2)
      by (auto simp add: peek_bits_def Let_def bind_ub_def get_mask_eq [OF bc32] take_bit_eq_mask [symmetric]
            valid_bits_ok [OF ok])
  qed
qed

lemma buffers_ok_bits:
  assumes ok: "buffers_ok s" and i: "i < 2"
  shows "unat (m_bitCounts s ! i) \<le> 31" "unat (m_bitCounts s ! i) \<le> n \<Longrightarrow> \<not> bit (m_bits s ! i) n"
proof -
  from ok have l: "length (m_bits s) = 2"
    and la: "list_all2 (\<lambda>b c. unat c \<le> 31 \<and> take_bit (unat c) b = b) (m_bits s) (m_bitCounts s)"
    by (simp_all add: buffers_ok_def)
  from list_all2_nthD [OF la, of i] l i
  have c: "unat (m_bitCounts s ! i) \<le> 31"
    and t: "take_bit (unat (m_bitCounts s ! i)) (m_bits s ! i) = m_bits s ! i"
    by simp_all
  show "unat (m_bitCounts s ! i) \<le> 31" by (rule c)
  assume n: "unat (m_bitCounts s ! i) \<le> n"
  have x: "\<not> bit (take_bit (unat (m_bitCounts s ! i)) (m_bits s ! i)) n"
    using n by (simp add: bit_take_bit_iff)
  from x [unfolded t] show "\<not> bit (m_bits s ! i) n" .
qed

text \<open>
  C6. In every reachable state both remaining counts are in \<open>[0, 31]\<close> and no buffer has
  a bit set at or above its remaining count. An extraction made in such a state, or in
  it after the toggle of \<^verbatim>\<open>m_ctrlIndex\<close> that \<^verbatim>\<open>randomBits\<close> and \<^verbatim>\<open>random\<close> perform,
  depends on the buffer through \<open>valid_bits\<close> only: \<^verbatim>\<open>_get_bits\<close> returns what the
  spec's extractor computes from the bits below the remaining count, and \<^verbatim>\<open>_peek_bits\<close>
  looks at the low \<open>bit_count\<close> of them, and only when that many remain.
\<close>

theorem buffers_stay_in_range:
  assumes "reachable s"
  shows "length (m_bits s) = 2 \<and> length (m_bitCounts s) = 2 \<and> unat (m_ctrlIndex s) < 2
     \<and> (\<forall>i<2. unat (m_bitCounts s ! i) \<le> 31
            \<and> (\<forall>n. unat (m_bitCounts s ! i) \<le> n \<longrightarrow> \<not> bit (m_bits s ! i) n))
     \<and> (\<forall>t. (t = s \<or> t = s\<lparr>m_ctrlIndex := m_ctrlIndex s XOR 0x01\<rparr>) \<and> unat bit_count \<le> 20 \<longrightarrow>
           (\<exists>t'. get_bits bit_count t = Inr (spec_extract bit_count t, t'))
           \<and> (bit_count \<le> m_bitCounts t ! unat (m_ctrlIndex t) \<and> take_bit (unat bit_count) (valid_bits t) < num
                \<longrightarrow> (\<exists>t'. peek_bits bit_count num res t
                            = Inr (True, take_bit (unat bit_count) (valid_bits t), t')))
           \<and> (\<not> (bit_count \<le> m_bitCounts t ! unat (m_ctrlIndex t)
                   \<and> take_bit (unat bit_count) (valid_bits t) < num)
                \<longrightarrow> peek_bits bit_count num res t = Inr (False, res, t)))"
proof -
  note ok = reachable_buffers_ok [OF assms]
  have a: "length (m_bits s) = 2 \<and> length (m_bitCounts s) = 2 \<and> unat (m_ctrlIndex s) < 2"
    using ok by (simp add: buffers_ok_def)
  have b: "\<forall>i<2. unat (m_bitCounts s ! i) \<le> 31
            \<and> (\<forall>n. unat (m_bitCounts s ! i) \<le> n \<longrightarrow> \<not> bit (m_bits s ! i) n)"
    using buffers_ok_bits [OF ok] by blast
  have c: "(\<exists>t'. get_bits bit_count t = Inr (spec_extract bit_count t, t'))
           \<and> (bit_count \<le> m_bitCounts t ! unat (m_ctrlIndex t) \<and> take_bit (unat bit_count) (valid_bits t) < num
                \<longrightarrow> (\<exists>t'. peek_bits bit_count num res t
                            = Inr (True, take_bit (unat bit_count) (valid_bits t), t')))
           \<and> (\<not> (bit_count \<le> m_bitCounts t ! unat (m_ctrlIndex t)
                   \<and> take_bit (unat bit_count) (valid_bits t) < num)
                \<longrightarrow> peek_bits bit_count num res t = Inr (False, res, t))"
    if t: "t = s \<or> t = s\<lparr>m_ctrlIndex := m_ctrlIndex s XOR 0x01\<rparr>" and bc: "unat bit_count \<le> 20" for t
  proof -
    have okt: "buffers_ok t" using t ok buffers_ok_toggle [OF ok] by auto
    have bc31: "unat bit_count \<le> 31" using bc by simp
    from get_bits_spec_extract [OF okt bc31] peek_bits_valid_bits [OF okt bc31, of num res]
    show ?thesis by blast
  qed
  from a b c show ?thesis by blast
qed

theorem buffers_stay_in_range_witness:
  "reachable gen0
   \<and> unat (m_bitCounts gen0 ! 0) \<le> 31 \<and> unat (m_bitCounts gen0 ! 1) \<le> 31
   \<and> \<not> bit (m_bits gen0 ! 0) 31 \<and> \<not> bit (m_bits gen0 ! 1) 31
   \<and> unat (8 :: uint8_t) \<le> 20
   \<and> (\<exists>t'. get_bits 8 gen0 = Inr (spec_extract 8 gen0, t'))"
proof -
  note h = buffers_stay_in_range [OF reachable_gen0, of 8 0 0]
  have c: "unat (m_bitCounts gen0 ! 0) = 31" "unat (m_bitCounts gen0 ! 1) = 31"
    by (simp_all add: gen0_eq)
  have "unat (m_bitCounts gen0 ! 0) \<le> 31 \<and> unat (m_bitCounts gen0 ! 1) \<le> 31"
    using h by simp
  moreover have "\<not> bit (m_bits gen0 ! 0) 31 \<and> \<not> bit (m_bits gen0 ! 1) 31"
    using h c by simp
  moreover have "\<exists>t'. get_bits 8 gen0 = Inr (spec_extract 8 gen0, t')"
    using h by simp
  ultimately show ?thesis using reachable_gen0 by simp
qed

end
